theory Spec2Isabelle
  imports Main "HOL-Library.Sublist"
begin

section \<open>The setup script of odin-wrapper-swift\<close>

text \<open>
  The repository is one Python script, Setup.py.  It reads a version token out of
  Sources/OdinKit.swift, builds the URL of the release archive, downloads the archive into
  a temporary file and unpacks it into Frameworks.  The script has one function of its own,
  get_xcframework_version, and a main block; everything else is a call into the Python
  standard library (re, os.path, urllib.request, tempfile, shutil, tarfile).

  The script's own code is embedded statement by statement.  The library calls are
  embedded by what they do on a POSIX system, with everything outside the script (the
  network, the temporary directory, the tar decoder, the interpreter's default extraction
  policy, the permissions of the file system) as fields of an environment record.
  A Python str is a \<^typ>\<open>string\<close>; one \<^typ>\<open>char\<close> stands for one character.
\<close>

subsection \<open>Module constants\<close>

definition dquote :: char where
  "dquote = CHR 0x22"

definition slash :: char where
  "slash = CHR ''/''"

text \<open>Line 11: the base of every download URL.\<close>

definition coresdk_url :: string where
  "coresdk_url = ''https://github.com/4Players/odin-sdk''"

subsection \<open>The regular expression of line 19\<close>

text \<open>
  The pattern is the literal text let version = followed by a double quote, then the
  group \<open>([^"]+)\<close>, then a closing double quote.  \<open>marker\<close> is the literal part up to and
  including the opening quote.
\<close>

definition marker :: string where
  "marker = ''let version = '' @ [dquote]"

text \<open>Matching a literal at the head of the text; the result is the text after it.\<close>

definition lit :: "string \<Rightarrow> string \<Rightarrow> string option" where
  "lit l s = (if take (length l) s = l then Some (drop (length l) s) else None)"

text \<open>The character class \<open>[^"]\<close>: every character but the double quote.\<close>

definition not_quote :: "char \<Rightarrow> bool" where
  "not_quote c \<longleftrightarrow> c \<noteq> dquote"

text \<open>
  The greedy repetition \<open>[^"]+\<close>: every way of consuming one or more characters of the
  class, the longest first, which is the order in which a backtracking matcher tries them.
  Each candidate is the consumed text and the text left.
\<close>

definition not_quote_plus :: "string \<Rightarrow> (string \<times> string) list" where
  "not_quote_plus s =
     map (\<lambda>k. (take k s, drop k s)) (rev [1 ..< Suc (length (takeWhile not_quote s))])"

text \<open>
  The closing quote after the group: the first candidate after which it matches wins.
  The result is the group and the text after the match.
\<close>

fun first_closing :: "(string \<times> string) list \<Rightarrow> (string \<times> string) option" where
  "first_closing [] = None"
| "first_closing ((v, r) # cs) =
     (case lit [dquote] r of
        Some rest \<Rightarrow> Some (v, rest)
      | None \<Rightarrow> first_closing cs)"

text \<open>One attempt of the whole pattern at the head of the text.\<close>

definition match_here :: "string \<Rightarrow> (string \<times> string) option" where
  "match_here s =
     (case lit marker s of
        None \<Rightarrow> None
      | Some r \<Rightarrow> first_closing (not_quote_plus r))"

text \<open>
  re.findall: scan from the left; where the pattern matches, keep the group and go on
  after the match, otherwise move one character on.  A match is never empty, so the scan
  always advances.
\<close>

lemma lit_Some_iff: "lit l s = Some r \<longleftrightarrow> s = l @ r"
proof
  assume "lit l s = Some r"
  then have "take (length l) s = l" and "drop (length l) s = r"
    by (auto simp: lit_def split: if_splits)
  then show "s = l @ r"
    by (metis append_take_drop_id)
next
  assume "s = l @ r"
  then show "lit l s = Some r"
    by (simp add: lit_def)
qed

lemma first_closing_shorter:
  "first_closing cs = Some (v, rest) \<Longrightarrow> \<forall>(a, b) \<in> set cs. length b \<le> n \<Longrightarrow> length rest < n"
  by (induction cs rule: first_closing.induct)
    (auto simp: lit_Some_iff split: option.splits)

lemma match_here_shorter:
  assumes "match_here s = Some (v, rest)"
  shows "length rest < length s"
proof -
  from assms obtain r where r: "lit marker s = Some r"
    and f: "first_closing (not_quote_plus r) = Some (v, rest)"
    by (auto simp: match_here_def split: option.splits)
  have "\<forall>(a, b) \<in> set (not_quote_plus r). length b \<le> length r"
    by (auto simp: not_quote_plus_def)
  with f have "length rest < length r"
    by (rule first_closing_shorter)
  moreover from r have "length s = length marker + length r"
    by (simp add: lit_Some_iff)
  ultimately show ?thesis
    by linarith
qed

function findall :: "string \<Rightarrow> string list" where
  "findall s =
     (case match_here s of
        Some (v, rest) \<Rightarrow> v # findall rest
      | None \<Rightarrow> (case s of [] \<Rightarrow> [] | c # t \<Rightarrow> findall t))"
  by pat_completeness auto
termination
  by (relation "measure length") (auto dest: match_here_shorter)

declare findall.simps [simp del]

subsection \<open>Paths and the file system\<close>

text \<open>posixpath.join for two components; os.path.join with three is two of these.\<close>

definition join :: "string \<Rightarrow> string \<Rightarrow> string" where
  "join a b =
     (if take 1 b = [slash] then b
      else if a = [] \<or> last a = slash then a @ b
      else a @ [slash] @ b)"

text \<open>str.split on the separator.\<close>

fun split_on :: "char \<Rightarrow> string \<Rightarrow> string list" where
  "split_on d [] = [[]]"
| "split_on d (c # cs) =
     (if c = d then [] # split_on d cs
      else (case split_on d cs of [] \<Rightarrow> [[c]] | x # xs \<Rightarrow> (c # x) # xs))"

text \<open>
  A location is the list of directory names from the root down to a file.  A path names a
  location the way the operating system resolves it when there are no symbolic links:
  an absolute path starts at the root and any other at the working directory, empty and
  dot components stay in place, and a dot-dot component goes one level up (and stays at
  the root when already there).
\<close>

type_synonym location = "string list"

definition step_dir :: "string \<Rightarrow> location \<Rightarrow> location" where
  "step_dir c cur =
     (if c = [] \<or> c = ''.'' then cur
      else if c = ''..'' then butlast cur
      else cur @ [c])"

definition resolve :: "location \<Rightarrow> string \<Rightarrow> location" where
  "resolve wd p = fold step_dir (split_on slash p) (if take 1 p = [slash] then [] else wd)"

subsection \<open>Errors, events, the world and its environment\<close>

text \<open>
  The script raises nothing itself and catches nothing: every failure is an exception of a
  library call that ends the run.  The constructors are the exceptions the calls raise:
  the builtin open (FileNotFoundError), the index into the list of matches (IndexError),
  urlopen (URLError, of which HTTPError is a subclass), the read of the response inside
  copyfileobj (IncompleteRead), tarfile.open (ReadError), the extraction filter
  (OutsideDestinationError) and the write of a member (OSError).
\<close>

datatype error =
    FileNotFoundError
  | IndexError
  | URLError
  | IncompleteRead
  | ReadError
  | OutsideDestinationError
  | OSError

text \<open>What the run does that can be seen from outside, in the order it does it.\<close>

datatype event =
    Printed string
  | Requested string
  | Copied
  | Opened
  | Wrote location
  | Closed

text \<open>A member of the archive: a regular file with its name and its bytes.\<close>

record member =
  name :: string
  content :: string

text \<open>What urlopen hands back: a body that arrives in full, or one that breaks off.\<close>

datatype response = Complete string | Broken string

text \<open>
  The default extraction filter of the interpreter: fully_trusted up to Python 3.13,
  data from Python 3.14 on.  The script passes no filter, so the default decides.
\<close>

datatype extraction_filter = fully_trusted | data

text \<open>
  The environment of a run, all of it outside the script:
  \<^item> \<open>script_path\<close>: the value of line 12, the directory part of the script's own file name;
  \<^item> \<open>cwd\<close>: the working directory, where relative paths start;
  \<^item> \<open>urlopen\<close>: what the network answers to a URL, \<open>None\<close> when the call raises;
  \<^item> \<open>tmpname\<close>: the name NamedTemporaryFile chooses;
  \<^item> \<open>readback\<close>: what a second open of the temporary file reads of the bytes written;
  \<^item> \<open>untar\<close>: the decoder of tarfile.open, \<open>None\<close> for bytes that are no archive;
  \<^item> \<open>default_filter\<close>: the extraction filter of the interpreter;
  \<^item> \<open>writable\<close>: whether the file system, as it is, lets a file be written at a location.
\<close>

record env =
  script_path :: string
  cwd :: location
  urlopen :: "string \<Rightarrow> response option"
  tmpname :: string
  readback :: "string \<Rightarrow> string"
  untar :: "string \<Rightarrow> member list option"
  default_filter :: extraction_filter
  writable :: "(location \<rightharpoonup> string) \<Rightarrow> location \<Rightarrow> bool"

text \<open>
  The world a run changes: the regular files of the file system by location, the files of
  the temporary directory by name, and the events so far.
\<close>

record world =
  files :: "location \<rightharpoonup> string"
  temps :: "string \<rightharpoonup> string"
  trace :: "event list"

definition emit :: "event \<Rightarrow> world \<Rightarrow> world" where
  "emit e w = w\<lparr>trace := trace w @ [e]\<rparr>"

subsection \<open>get_xcframework_version (lines 14 to 19)\<close>

text \<open>
  The function opens the version file, reads it and returns the first element of the list
  re.findall gives.  open raises FileNotFoundError when no file is at the path, and the
  index raises IndexError when the list is empty.
\<close>

definition version_path :: "env \<Rightarrow> string" where
  "version_path E = join (join (script_path E) ''Sources'') ''OdinKit.swift''"

definition get_xcframework_version :: "env \<Rightarrow> world \<Rightarrow> error + string" where
  "get_xcframework_version E w =
     (case files w (resolve (cwd E) (version_path E)) of
        None \<Rightarrow> Inl FileNotFoundError
      | Some text \<Rightarrow>
          (case findall text of
             [] \<Rightarrow> Inl IndexError
           | v # vs \<Rightarrow> Inr v))"

subsection \<open>The main block (lines 21 to 33)\<close>

text \<open>print with two arguments writes them with one space between.\<close>

definition start_message :: "string \<Rightarrow> string" where
  "start_message v = ''Downloading Odin.xcframework version'' @ '' '' @ v"

definition done_message :: string where
  "done_message = ''All done :-)''"

text \<open>Line 25.\<close>

definition xcframework_url :: "string \<Rightarrow> string" where
  "xcframework_url xcframework_version =
     coresdk_url @ ''/releases/download/v'' @ xcframework_version @ ''/odin-xcframework.tgz''"

text \<open>Line 30: the directory the archive is unpacked into.\<close>

definition frameworks_path :: "env \<Rightarrow> string" where
  "frameworks_path E = join (script_path E) ''Frameworks''"

text \<open>
  Line 27, the with statement over NamedTemporaryFile(delete = True): the file is created
  empty under the name the environment chooses, the body runs, and the file is closed and
  deleted when the block is left, by its end or by an exception.
\<close>

definition with_tmp ::
  "env \<Rightarrow> (string \<Rightarrow> world \<Rightarrow> error option \<times> world) \<Rightarrow> world \<Rightarrow> error option \<times> world" where
  "with_tmp E body w =
     (case body (tmpname E) (w\<lparr>temps := (temps w)(tmpname E \<mapsto> [])\<rparr>) of
        (r, w') \<Rightarrow> (r, w'\<lparr>temps := (temps w')(tmpname E := None)\<rparr>))"

text \<open>
  Line 28, shutil.copyfileobj: the bytes of the response go into the temporary file.  A
  response that breaks off leaves what had arrived and raises.
\<close>

definition copyfileobj :: "response \<Rightarrow> string \<Rightarrow> world \<Rightarrow> error option \<times> world" where
  "copyfileobj rsp tmp w =
     (case rsp of
        Broken part \<Rightarrow> (Some IncompleteRead, w\<lparr>temps := (temps w)(tmp \<mapsto> part)\<rparr>)
      | Complete body \<Rightarrow> (None, emit Copied (w\<lparr>temps := (temps w)(tmp \<mapsto> body)\<rparr>)))"

text \<open>
  Line 29, tarfile.open on the name of the temporary file: a second open of the file, by
  name, while the handle the bytes were written through is still open and was never
  flushed.  What the second open reads of the bytes written is up to the buffering of the
  io layer; the environment says it (\<open>readback\<close>).  These bytes are decoded into the
  members of the archive, or the call raises ReadError.
\<close>

definition tarfile_open :: "env \<Rightarrow> string \<Rightarrow> world \<Rightarrow> error + member list" where
  "tarfile_open E tmp w =
     (case temps w tmp of
        None \<Rightarrow> Inl FileNotFoundError
      | Some bytes \<Rightarrow> (case untar E (readback E bytes) of None \<Rightarrow> Inl ReadError | Some ms \<Rightarrow> Inr ms))"

text \<open>
  The extraction filter applied to one member.  fully_trusted returns the member as it
  is.  data strips the leading slashes of the name and raises when the resulting target
  lies outside the destination.
\<close>

definition filter_member :: "env \<Rightarrow> string \<Rightarrow> member \<Rightarrow> error + member" where
  "filter_member E dest m =
     (case default_filter E of
        fully_trusted \<Rightarrow> Inr m
      | data \<Rightarrow>
          (let n = (if take 1 (name m) = [slash] then dropWhile (\<lambda>c. c = slash) (name m) else name m)
           in if prefix (resolve (cwd E) dest) (resolve (cwd E) (join dest n))
              then Inr (m\<lparr>name := n\<rparr>)
              else Inl OutsideDestinationError))"

text \<open>
  The extraction of one member: the filter, then the write of the member's bytes to the
  location that the destination joined with the member's name resolves to.  The write
  replaces whatever file was there; it raises when the file system refuses it.
\<close>

definition extract_one :: "env \<Rightarrow> string \<Rightarrow> member \<Rightarrow> world \<Rightarrow> error option \<times> world" where
  "extract_one E dest m w =
     (case filter_member E dest m of
        Inl e \<Rightarrow> (Some e, w)
      | Inr m' \<Rightarrow>
          (let l = resolve (cwd E) (join dest (name m'))
           in if writable E (files w) l
              then (None, emit (Wrote l) (w\<lparr>files := (files w)(l \<mapsto> content m')\<rparr>))
              else (Some OSError, w)))"

text \<open>
  Line 30, extractall: the members in archive order; the first failure ends the loop and
  leaves what was written before it.
\<close>

fun extractall :: "env \<Rightarrow> string \<Rightarrow> member list \<Rightarrow> world \<Rightarrow> error option \<times> world" where
  "extractall E dest [] w = (None, w)"
| "extractall E dest (m # ms) w =
     (case extract_one E dest m w of
        (Some e, w') \<Rightarrow> (Some e, w')
      | (None, w') \<Rightarrow> extractall E dest ms w')"

text \<open>Lines 28 to 31, the body of the inner with block.\<close>

definition unpack :: "env \<Rightarrow> response \<Rightarrow> string \<Rightarrow> world \<Rightarrow> error option \<times> world" where
  "unpack E rsp tmp w =
     (case copyfileobj rsp tmp w of
        (Some e, w1) \<Rightarrow> (Some e, w1)
      | (None, w1) \<Rightarrow>
          (case tarfile_open E tmp w1 of
             Inl e \<Rightarrow> (Some e, w1)
           | Inr ms \<Rightarrow>
               (case extractall E (frameworks_path E) ms (emit Opened w1) of
                  (Some e, w2) \<Rightarrow> (Some e, w2)
                | (None, w2) \<Rightarrow> (None, emit Closed w2))))"

text \<open>
  The main block.  The result is the exception that ended the run, if any, and the world
  the run leaves behind.
\<close>

definition main :: "env \<Rightarrow> world \<Rightarrow> error option \<times> world" where
  "main E w =
     (case get_xcframework_version E w of
        Inl e \<Rightarrow> (Some e, w)
      | Inr xcframework_version \<Rightarrow>
          (let w1 = emit (Printed (start_message xcframework_version)) w;
               w2 = emit (Requested (xcframework_url xcframework_version)) w1
           in case urlopen E (xcframework_url xcframework_version) of
                None \<Rightarrow> (Some URLError, w2)
              | Some rsp \<Rightarrow>
                  (case with_tmp E (unpack E rsp) w2 of
                     (Some e, w3) \<Rightarrow> (Some e, w3)
                   | (None, w3) \<Rightarrow> (None, emit (Printed done_message) w3))))"

section \<open>The notions of the specification\<close>

text \<open>
  An occurrence of the assignment pattern in a text: the marker, a non-empty value free of
  double quotes, and the closing quote, with \<open>pre\<close> before it and \<open>post\<close> after it.
\<close>

definition occurrence :: "string \<Rightarrow> string \<Rightarrow> string \<Rightarrow> string \<Rightarrow> bool" where
  "occurrence text pre v post \<longleftrightarrow>
     text = pre @ marker @ v @ [dquote] @ post \<and> v \<noteq> [] \<and> dquote \<notin> set v"

text \<open>The value of the occurrence that starts first.\<close>

definition first_occurrence :: "string \<Rightarrow> string \<Rightarrow> bool" where
  "first_occurrence text v \<longleftrightarrow>
     (\<exists>pre post. occurrence text pre v post \<and>
        (\<forall>pre' v' post'. occurrence text pre' v' post' \<longrightarrow> length pre \<le> length pre'))"

text \<open>
  A quoted value after the identifier as the specification words it: the marker, a value
  free of double quotes, and the closing quote.  Nothing here asks the value to be
  non-empty.
\<close>

definition quoted_value :: "string \<Rightarrow> string \<Rightarrow> string \<Rightarrow> string \<Rightarrow> bool" where
  "quoted_value text pre v post \<longleftrightarrow>
     text = pre @ marker @ v @ [dquote] @ post \<and> dquote \<notin> set v"

text \<open>The URLs a trace asks the network for, in order.\<close>

fun requests :: "event list \<Rightarrow> string list" where
  "requests [] = []"
| "requests (Requested u # es) = u # requests es"
| "requests (e # es) = requests es"

text \<open>The error taxonomy of the specification, and the exceptions it stands for.\<close>

datatype failure = NotFound | FormatError | NetworkError | ExtractionError

fun failure_kind :: "error \<Rightarrow> failure" where
  "failure_kind FileNotFoundError = NotFound"
| "failure_kind IndexError = FormatError"
| "failure_kind URLError = NetworkError"
| "failure_kind IncompleteRead = NetworkError"
| "failure_kind ReadError = ExtractionError"
| "failure_kind OutsideDestinationError = ExtractionError"
| "failure_kind OSError = ExtractionError"

text \<open>
  The state machine of the specification: five states in a line.  \<open>advance\<close> says which
  events each state admits and where they lead: the start line is printed on leaving
  Idle, the request happens in VersionResolved and the finished copy leads to Downloaded,
  the archive is opened and written out in Downloaded and its closing leads to Extracted,
  and the completion line leads to Done.  Anything else is refused.
\<close>

datatype state = Idle | VersionResolved | Downloaded | Extracted | Done

fun advance :: "state \<Rightarrow> event \<Rightarrow> state option" where
  "advance Idle (Printed s) = Some VersionResolved"
| "advance VersionResolved (Requested u) = Some VersionResolved"
| "advance VersionResolved Copied = Some Downloaded"
| "advance Downloaded Opened = Some Downloaded"
| "advance Downloaded (Wrote l) = Some Downloaded"
| "advance Downloaded Closed = Some Extracted"
| "advance Extracted (Printed s) = Some Done"
| "advance q e = None"

fun accept :: "state \<Rightarrow> event list \<Rightarrow> state option" where
  "accept q [] = Some q"
| "accept q (e # es) = (case advance q e of None \<Rightarrow> None | Some q' \<Rightarrow> accept q' es)"

text \<open>The state in which each exception is raised, and the state a run ends in.\<close>

fun halted_in :: "error \<Rightarrow> state" where
  "halted_in FileNotFoundError = Idle"
| "halted_in IndexError = Idle"
| "halted_in URLError = VersionResolved"
| "halted_in IncompleteRead = VersionResolved"
| "halted_in ReadError = Downloaded"
| "halted_in OutsideDestinationError = Downloaded"
| "halted_in OSError = Downloaded"

definition final_state :: "error option \<Rightarrow> state" where
  "final_state r = (case r of None \<Rightarrow> Done | Some e \<Rightarrow> halted_in e)"

text \<open>The events a run adds to the trace it starts with.\<close>

definition new_events :: "env \<Rightarrow> world \<Rightarrow> event list" where
  "new_events E w = drop (length (trace w)) (trace (snd (main E w)))"

text \<open>
  The output directory and the paths under it.  A location is inside the output directory
  when the directory's own location is a prefix of it.  The target of a member is where
  the destination joined with the member's name leads.  A name is safe when it is
  relative and none of its components is dot-dot.
\<close>

definition inside :: "env \<Rightarrow> location \<Rightarrow> bool" where
  "inside E l \<longleftrightarrow> prefix (resolve (cwd E) (frameworks_path E)) l"



text \<open>
  Where the extraction filter lets a member go, if it lets it pass, with the bytes that
  go there; and the file system after the member is put there.
\<close>

definition placed :: "env \<Rightarrow> member \<Rightarrow> (location \<times> string) option" where
  "placed E m =
     (case filter_member E (frameworks_path E) m of
        Inl e \<Rightarrow> None
      | Inr m' \<Rightarrow> Some (resolve (cwd E) (join (frameworks_path E) (name m')), content m'))"

definition put :: "env \<Rightarrow> member \<Rightarrow> (location \<rightharpoonup> string) \<Rightarrow> (location \<rightharpoonup> string)" where
  "put E m f = (case placed E m of None \<Rightarrow> f | Some (l, c) \<Rightarrow> f(l \<mapsto> c))"

section \<open>Example environments and worlds\<close>

text \<open>
  A checkout at /repo, a network that delivers the bytes of one archive for every URL, and
  a decoder that knows this archive: one regular file.
\<close>

definition example_env :: env where
  "example_env =
     \<lparr>script_path = ''/repo'', cwd = [''home''],
      urlopen = (\<lambda>u. Some (Complete ''tgz'')), tmpname = ''tmp1'', readback = (\<lambda>b. b),
      untar = (\<lambda>b. if b = ''tgz''
                 then Some [\<lparr>name = ''Odin.xcframework/Info.plist'', content = ''plist''\<rparr>]
                 else None),
      default_filter = fully_trusted, writable = (\<lambda>f l. True)\<rparr>"

text \<open>The same with a decoder that rejects every archive.\<close>

definition corrupt_env :: env where
  "corrupt_env = example_env\<lparr>untar := (\<lambda>b. None)\<rparr>"


text \<open>A world whose only file is the version file, with the given text.\<close>

definition version_file :: "string \<Rightarrow> world" where
  "version_file t =
     \<lparr>files = [[''repo'', ''Sources'', ''OdinKit.swift''] \<mapsto> t], temps = Map.empty, trace = []\<rparr>"

definition text_1_2_3 :: string where
  "text_1_2_3 = ''let version = '' @ [dquote] @ ''1.2.3'' @ [dquote]"

definition text_empty_then_2_0 :: string where
  "text_empty_then_2_0 =
     ''let version = '' @ [dquote] @ [dquote] @ '' let version = '' @ [dquote] @ ''2.0'' @ [dquote]"

definition text_1_0_then_2_0 :: string where
  "text_1_0_then_2_0 =
     ''let version = '' @ [dquote] @ ''1.0'' @ [dquote] @ '' let version = '' @ [dquote] @ ''2.0'' @ [dquote]"

definition text_unquoted :: string where
  "text_unquoted = ''let version = 1.2.3''"

definition text_odd_token :: string where
  "text_odd_token = ''let version = '' @ [dquote] @ ''../a b/c'' @ [dquote]"

section \<open>The pattern and the first occurrence\<close>

text \<open>
  Inside the longest run of characters of the class the closing quote cannot match, so
  backtracking never succeeds: the pattern matches at the head of a text exactly when the
  text starts with the marker, a non-empty run free of double quotes, and a double quote.
\<close>

lemma closing_fails_inside:
  assumes "k < length (takeWhile not_quote r)"
  shows "lit [dquote] (drop k r) = None"
proof -
  from assms have kr: "k < length r"
    using length_takeWhile_le [of not_quote r] by linarith
  from assms have "takeWhile not_quote r ! k \<in> set (takeWhile not_quote r)"
    by simp
  then have "not_quote (takeWhile not_quote r ! k)"
    by (rule set_takeWhileD [THEN conjunct2])
  with assms have "r ! k \<noteq> dquote"
    by (simp add: takeWhile_nth not_quote_def)
  moreover from kr have "drop k r = r ! k # drop (Suc k) r"
    by (simp add: Cons_nth_drop_Suc)
  ultimately show ?thesis
    by (simp add: lit_def)
qed

lemma first_closing_inside:
  "n \<le> length (takeWhile not_quote r) \<Longrightarrow>
   first_closing (map (\<lambda>k. (take k r, drop k r)) (rev [1 ..< n])) = None"
proof (induction n)
  case 0
  then show ?case by simp
next
  case (Suc n)
  show ?case
  proof (cases "n = 0")
    case True
    then show ?thesis by simp
  next
    case False
    then have "rev [1 ..< Suc n] = n # rev [1 ..< n]"
      by simp
    moreover have "lit [dquote] (drop n r) = None"
      using Suc.prems by (intro closing_fails_inside) simp
    moreover have "first_closing (map (\<lambda>k. (take k r, drop k r)) (rev [1 ..< n])) = None"
      using Suc by simp
    ultimately show ?thesis
      by simp
  qed
qed

lemma first_closing_not_quote_plus:
  "first_closing (not_quote_plus r) =
     (case dropWhile not_quote r of
        [] \<Rightarrow> None
      | c # rest \<Rightarrow> if takeWhile not_quote r = [] then None else Some (takeWhile not_quote r, rest))"
proof (cases "length (takeWhile not_quote r)")
  case 0
  then have tw: "takeWhile not_quote r = []"
    by simp
  have e: "not_quote_plus r = []"
    unfolding not_quote_plus_def tw by simp
  show ?thesis
  proof (cases "dropWhile not_quote r")
    case Nil
    show ?thesis unfolding e tw Nil by simp
  next
    case (Cons c rest)
    show ?thesis unfolding e tw Cons by simp
  qed
next
  case (Suc n)
  have t: "take (Suc n) r = takeWhile not_quote r"
    unfolding Suc [symmetric] by (rule takeWhile_eq_take [symmetric])
  have d: "drop (Suc n) r = dropWhile not_quote r"
    unfolding Suc [symmetric] by (rule dropWhile_eq_drop [symmetric])
  have "rev [1 ..< Suc (Suc n)] = Suc n # rev [1 ..< Suc n]"
    by simp
  then have l: "not_quote_plus r =
      (takeWhile not_quote r, dropWhile not_quote r) # map (\<lambda>k. (take k r, drop k r)) (rev [1 ..< Suc n])"
    unfolding not_quote_plus_def Suc using t d by simp
  have i: "first_closing (map (\<lambda>k. (take k r, drop k r)) (rev [1 ..< Suc n])) = None"
    using Suc by (intro first_closing_inside) simp
  have n: "takeWhile not_quote r \<noteq> []"
    using Suc by auto
  show ?thesis
  proof (cases "dropWhile not_quote r")
    case Nil
    show ?thesis
      unfolding l Nil using i by (simp add: lit_def)
  next
    case (Cons c rest)
    have "\<not> not_quote (hd (dropWhile not_quote r))"
      by (rule hd_dropWhile) (simp add: Cons)
    then have "c = dquote"
      unfolding Cons by (simp add: not_quote_def)
    with n show ?thesis
      unfolding l Cons by (simp add: lit_def)
  qed
qed

lemma match_here_iff:
  "match_here s = Some (v, rest) \<longleftrightarrow> s = marker @ v @ dquote # rest \<and> v \<noteq> [] \<and> dquote \<notin> set v"
proof
  assume "match_here s = Some (v, rest)"
  then obtain r c where r: "s = marker @ r"
    and v: "v = takeWhile not_quote r" and ne: "v \<noteq> []"
    and d: "dropWhile not_quote r = c # rest"
    by (auto simp: match_here_def first_closing_not_quote_plus lit_Some_iff
        split: option.splits if_splits list.splits)
  have "\<not> not_quote (hd (dropWhile not_quote r))"
    by (rule hd_dropWhile) (simp add: d)
  then have "c = dquote"
    unfolding d by (simp add: not_quote_def)
  with d have "r = v @ dquote # rest"
    using v takeWhile_dropWhile_id [of not_quote r] by simp
  moreover have "\<forall>x \<in> set v. not_quote x"
    using v set_takeWhileD by fastforce
  then have "dquote \<notin> set v"
    by (auto simp: not_quote_def)
  ultimately show "s = marker @ v @ dquote # rest \<and> v \<noteq> [] \<and> dquote \<notin> set v"
    using r ne by simp
next
  assume a: "s = marker @ v @ dquote # rest \<and> v \<noteq> [] \<and> dquote \<notin> set v"
  then have "lit marker s = Some (v @ dquote # rest)"
    by (simp add: lit_Some_iff)
  moreover from a have q: "\<forall>x \<in> set v. not_quote x"
    by (auto simp: not_quote_def)
  then have "takeWhile not_quote (v @ dquote # rest) = v"
    by (simp add: takeWhile_append2 not_quote_def)
  moreover from q have "dropWhile not_quote (v @ dquote # rest) = dquote # rest"
    by (simp add: dropWhile_append2 not_quote_def)
  ultimately show "match_here s = Some (v, rest)"
    using a by (simp add: match_here_def first_closing_not_quote_plus)
qed

lemma match_here_occurrence:
  "match_here s = Some (v, rest) \<longleftrightarrow> occurrence s [] v rest"
  by (simp add: match_here_iff occurrence_def)

lemma occurrence_Cons:
  "occurrence (c # t) (c' # pre) v post \<longleftrightarrow> c' = c \<and> occurrence t pre v post"
  by (auto simp: occurrence_def)

lemma occurrence_Nil: "\<not> occurrence [] pre v post"
  by (simp add: occurrence_def marker_def)

lemma findall_Nil: "findall [] = []"
  by (subst findall.simps) (simp add: match_here_def lit_def marker_def)

lemma findall_Cons:
  "findall (c # t) =
     (case match_here (c # t) of Some (v, rest) \<Rightarrow> v # findall rest | None \<Rightarrow> findall t)"
  by (subst findall.simps) (simp split: option.splits)

lemma occurrence_same_start:
  assumes "occurrence s pre v post" and "occurrence s pre' v' post'" and "length pre = length pre'"
  shows "v = v'"
proof -
  from assms have "pre = pre'" and e: "v @ dquote # post = v' @ dquote # post'"
    by (auto simp: occurrence_def)
  from assms have "dquote \<notin> set v" "dquote \<notin> set v'"
    by (auto simp: occurrence_def)
  then have "\<forall>x \<in> set v. not_quote x" and "\<forall>x \<in> set v'. not_quote x"
    by (auto simp: not_quote_def)
  then have "takeWhile not_quote (v @ dquote # post) = v"
    and "takeWhile not_quote (v' @ dquote # post') = v'"
    by (simp_all add: takeWhile_append2 not_quote_def)
  with e show ?thesis by simp
qed

lemma findall_empty_iff:
  "findall s = [] \<longleftrightarrow> (\<forall>pre v post. \<not> occurrence s pre v post)"
proof (induction s)
  case Nil
  then show ?case by (simp add: findall_Nil occurrence_Nil)
next
  case (Cons c t)
  show ?case
  proof (cases "match_here (c # t)")
    case None
    then have no: "\<And>v post. \<not> occurrence (c # t) [] v post"
      by (simp add: match_here_occurrence [symmetric])
    have "(\<forall>pre v post. \<not> occurrence (c # t) pre v post) \<longleftrightarrow> (\<forall>pre v post. \<not> occurrence t pre v post)"
    proof
      assume a: "\<forall>pre v post. \<not> occurrence (c # t) pre v post"
      show "\<forall>pre v post. \<not> occurrence t pre v post"
        using a occurrence_Cons [of c t c] by blast
    next
      assume a: "\<forall>pre v post. \<not> occurrence t pre v post"
      show "\<forall>pre v post. \<not> occurrence (c # t) pre v post"
      proof (intro allI)
        fix pre v post
        show "\<not> occurrence (c # t) pre v post"
          using no a occurrence_Cons [of c t] by (cases pre) auto
      qed
    qed
    with None Cons show ?thesis
      by (simp add: findall_Cons)
  next
    case (Some p)
    then obtain v rest where "match_here (c # t) = Some (v, rest)"
      by (cases p) auto
    then show ?thesis
      using match_here_occurrence [of "c # t" v rest] by (auto simp: findall_Cons)
  qed
qed

lemma findall_first:
  "findall s = v # vs \<Longrightarrow> first_occurrence s v"
proof (induction s)
  case Nil
  then show ?case by (simp add: findall_Nil)
next
  case (Cons c t)
  show ?case
  proof (cases "match_here (c # t)")
    case None
    then have no: "\<And>v post. \<not> occurrence (c # t) [] v post"
      by (simp add: match_here_occurrence [symmetric])
    from None Cons have "first_occurrence t v"
      by (simp add: findall_Cons)
    then obtain pre post where o: "occurrence t pre v post"
      and m: "\<forall>pre' v' post'. occurrence t pre' v' post' \<longrightarrow> length pre \<le> length pre'"
      unfolding first_occurrence_def by blast
    have "occurrence (c # t) (c # pre) v post"
      using o by (simp add: occurrence_Cons)
    moreover have "length (c # pre) \<le> length pre'" if "occurrence (c # t) pre' v' post'" for pre' v' post'
    proof (cases pre')
      case Nil
      with that no show ?thesis by simp
    next
      case (Cons c' p)
      with that have "occurrence t p v' post'"
        by (simp add: occurrence_Cons)
      with m have "length pre \<le> length p"
        by blast
      with Cons show ?thesis by simp
    qed
    ultimately show ?thesis
      unfolding first_occurrence_def by blast
  next
    case (Some p)
    then obtain u rest where u: "match_here (c # t) = Some (u, rest)"
      by (cases p) auto
    with Cons.prems have "u = v"
      by (simp add: findall_Cons)
    with u have "occurrence (c # t) [] v rest"
      by (simp add: match_here_occurrence)
    then show ?thesis
      unfolding first_occurrence_def by fastforce
  qed
qed

lemma first_occurrence_unique:
  assumes "first_occurrence s v" and "first_occurrence s v'"
  shows "v = v'"
proof -
  from assms(1) obtain pre post where o: "occurrence s pre v post"
      and m: "\<forall>pre' v' post'. occurrence s pre' v' post' \<longrightarrow> length pre \<le> length pre'"
    unfolding first_occurrence_def by blast
  from assms(2) obtain pre' post' where o': "occurrence s pre' v' post'"
      and m': "\<forall>pre v post. occurrence s pre v post \<longrightarrow> length pre' \<le> length pre"
    unfolding first_occurrence_def by blast
  have "length pre \<le> length pre'" and "length pre' \<le> length pre"
    using m o' m' o by blast+
  then have "length pre = length pre'"
    by simp
  with o o' show ?thesis
    by (rule occurrence_same_start)
qed

lemma findall_first_iff:
  "(\<exists>vs. findall s = v # vs) \<longleftrightarrow> first_occurrence s v"
proof
  assume "\<exists>vs. findall s = v # vs"
  then show "first_occurrence s v"
    by (auto dest: findall_first)
next
  assume f: "first_occurrence s v"
  then have "findall s \<noteq> []"
    by (auto simp: findall_empty_iff first_occurrence_def)
  then obtain u us where u: "findall s = u # us"
    by (cases "findall s") auto
  then have "first_occurrence s u"
    by (rule findall_first)
  with f have "u = v"
    by (rule first_occurrence_unique [symmetric])
  with u show "\<exists>vs. findall s = v # vs"
    by simp
qed

section \<open>The requests of a run\<close>

lemma requests_append: "requests (a @ b) = requests a @ requests b"
  by (induction a rule: requests.induct) simp_all

lemma trace_emit: "trace (emit e w) = trace w @ [e]"
  by (simp add: emit_def)

lemma files_emit: "files (emit e w) = files w"
  by (simp add: emit_def)

lemma temps_emit: "temps (emit e w) = temps w"
  by (simp add: emit_def)

lemma extract_one_requests:
  "requests (trace (snd (extract_one E d m w))) = requests (trace w)"
  by (simp add: extract_one_def Let_def trace_emit requests_append split: sum.splits)

lemma extractall_requests:
  "requests (trace (snd (extractall E d ms w))) = requests (trace w)"
proof (induction ms arbitrary: w)
  case Nil
  then show ?case by simp
next
  case (Cons m ms)
  show ?case
  proof (cases "extract_one E d m w")
    case (Pair r w')
    with Cons extract_one_requests [of E d m w] show ?thesis
      by (cases r) auto
  qed
qed

lemma copyfileobj_requests:
  "requests (trace (snd (copyfileobj rsp tmp w))) = requests (trace w)"
  by (cases rsp) (simp_all add: copyfileobj_def trace_emit requests_append)

lemma unpack_requests:
  "requests (trace (snd (unpack E rsp tmp w))) = requests (trace w)"
proof (cases "copyfileobj rsp tmp w")
  case (Pair r w1)
  then have c: "requests (trace w1) = requests (trace w)"
    using copyfileobj_requests [of rsp tmp w] by simp
  show ?thesis
  proof (cases r)
    case (Some e)
    with Pair c show ?thesis by (simp add: unpack_def)
  next
    case None
    show ?thesis
    proof (cases "tarfile_open E tmp w1")
      case (Inl e)
      with Pair None c show ?thesis by (simp add: unpack_def)
    next
      case (Inr ms)
      obtain r2 w2 where x: "extractall E (frameworks_path E) ms (emit Opened w1) = (r2, w2)"
        by (cases "extractall E (frameworks_path E) ms (emit Opened w1)")
      then have "requests (trace w2) = requests (trace w)"
        using extractall_requests [of E "frameworks_path E" ms "emit Opened w1"] c
        by (simp add: trace_emit requests_append)
      with Pair None Inr x show ?thesis
        by (cases r2) (simp_all add: unpack_def trace_emit requests_append)
    qed
  qed
qed

lemma with_tmp_requests:
  "requests (trace (snd (with_tmp E (unpack E rsp) w))) = requests (trace w)"
proof -
  obtain r w' where x: "unpack E rsp (tmpname E) (w\<lparr>temps := (temps w)(tmpname E \<mapsto> [])\<rparr>) = (r, w')"
    by (cases "unpack E rsp (tmpname E) (w\<lparr>temps := (temps w)(tmpname E \<mapsto> [])\<rparr>)")
  then have "requests (trace w') = requests (trace w)"
    using unpack_requests [of E rsp "tmpname E" "w\<lparr>temps := (temps w)(tmpname E \<mapsto> [])\<rparr>"] by simp
  with x show ?thesis
    by (simp add: with_tmp_def)
qed

lemma main_requests:
  assumes "get_xcframework_version E w = Inr v"
  shows "requests (trace (snd (main E w))) = requests (trace w) @ [xcframework_url v]"
proof (cases "urlopen E (xcframework_url v)")
  case None
  with assms show ?thesis
    by (simp add: main_def Let_def trace_emit requests_append)
next
  case (Some rsp)
  let ?w2 = "emit (Requested (xcframework_url v)) (emit (Printed (start_message v)) w)"
  obtain r w3 where x: "with_tmp E (unpack E rsp) ?w2 = (r, w3)"
    by (cases "with_tmp E (unpack E rsp) ?w2")
  then have "requests (trace w3) = requests (trace w) @ [xcframework_url v]"
    using with_tmp_requests [of E rsp ?w2] by (simp add: trace_emit requests_append)
  with assms Some x show ?thesis
    by (cases r) (simp_all add: main_def Let_def trace_emit requests_append)
qed

section \<open>The claims about the version token and the URL\<close>



text \<open>
  C2, as amended.  For every text of the version file, get_xcframework_version returns v
  exactly when v is the value of the first occurrence of the pattern whose value is
  non-empty and free of double quotes.
\<close>

theorem version_is_first_occurrence:
  assumes "files w (resolve (cwd E) (version_path E)) = Some text"
  shows "get_xcframework_version E w = Inr v \<longleftrightarrow> first_occurrence text v"
  using assms findall_first_iff [of "text" v]
  by (auto simp: get_xcframework_version_def split: list.splits)

theorem version_is_first_occurrence_witness:
  "files (version_file text_empty_then_2_0)
     (resolve (cwd example_env) (version_path example_env)) = Some text_empty_then_2_0 \<and>
   first_occurrence text_empty_then_2_0 ''2.0''"
proof -
  have f: "files (version_file text_empty_then_2_0)
      (resolve (cwd example_env) (version_path example_env)) = Some text_empty_then_2_0"
    by code_simp
  have g: "get_xcframework_version example_env (version_file text_empty_then_2_0) = Inr ''2.0''"
    by code_simp
  from version_is_first_occurrence [OF f, of "''2.0''"] g f show ?thesis
    by simp
qed

text \<open>
  C2, as stated, fails: the text below starts with the identifier and the quoted value
  that follows it is the empty one, yet the function returns 2.0, the value of the second
  quoted substring.
\<close>

theorem first_quoted_value_counterexample:
  "quoted_value text_empty_then_2_0 [] []
     ('' let version = '' @ [dquote] @ ''2.0'' @ [dquote]) \<and>
   get_xcframework_version example_env (version_file text_empty_then_2_0) = Inr ''2.0''"
proof -
  have "quoted_value text_empty_then_2_0 [] []
      ('' let version = '' @ [dquote] @ ''2.0'' @ [dquote])"
    by (simp add: quoted_value_def text_empty_then_2_0_def marker_def)
  moreover have "get_xcframework_version example_env (version_file text_empty_then_2_0) = Inr ''2.0''"
    by code_simp
  ultimately show ?thesis
    by simp
qed

text \<open>
  C3, as amended.  The pattern must be present at least once in the expected form, or
  retrieval fails with IndexError; whenever it is present, once or more often, retrieval
  succeeds.
\<close>

theorem version_present_or_fails:
  assumes "files w (resolve (cwd E) (version_path E)) = Some text"
  shows "((\<exists>v. get_xcframework_version E w = Inr v) \<longleftrightarrow>
            (\<exists>pre v post. occurrence text pre v post)) \<and>
         (get_xcframework_version E w = Inl IndexError \<longleftrightarrow>
            \<not> (\<exists>pre v post. occurrence text pre v post))"
  using assms findall_empty_iff [of "text"]
  by (auto simp: get_xcframework_version_def split: list.splits)

theorem version_present_or_fails_witness:
  "files (version_file text_unquoted) (resolve (cwd example_env) (version_path example_env)) =
     Some text_unquoted \<and>
   get_xcframework_version example_env (version_file text_unquoted) = Inl IndexError \<and>
   \<not> (\<exists>pre v post. occurrence text_unquoted pre v post)"
proof -
  have f: "files (version_file text_unquoted)
      (resolve (cwd example_env) (version_path example_env)) = Some text_unquoted"
    by code_simp
  have g: "get_xcframework_version example_env (version_file text_unquoted) = Inl IndexError"
    by code_simp
  from version_present_or_fails [OF f] g f show ?thesis
    by simp
qed

text \<open>
  C3, as stated, fails: the text below holds the pattern twice, and retrieval succeeds
  with the first value.
\<close>

theorem repeated_pattern_counterexample:
  "occurrence text_1_0_then_2_0 [] ''1.0'' ('' let version = '' @ [dquote] @ ''2.0'' @ [dquote]) \<and>
   occurrence text_1_0_then_2_0 (''let version = '' @ [dquote] @ ''1.0'' @ [dquote] @ '' '') ''2.0'' [] \<and>
   get_xcframework_version example_env (version_file text_1_0_then_2_0) = Inr ''1.0''"
proof -
  have "occurrence text_1_0_then_2_0 [] ''1.0'' ('' let version = '' @ [dquote] @ ''2.0'' @ [dquote])"
    by (simp add: occurrence_def text_1_0_then_2_0_def marker_def dquote_def)
  moreover have "occurrence text_1_0_then_2_0
      (''let version = '' @ [dquote] @ ''1.0'' @ [dquote] @ '' '') ''2.0'' []"
    by (simp add: occurrence_def text_1_0_then_2_0_def marker_def dquote_def)
  moreover have "get_xcframework_version example_env (version_file text_1_0_then_2_0) = Inr ''1.0''"
    by code_simp
  ultimately show ?thesis
    by simp
qed

text \<open>
  C4.  When the text of the version file holds no occurrence of the pattern, the run ends
  with IndexError, the exception that stands for the specification's FormatError, and
  leaves the world as it was: nothing is printed, no URL is requested, no file is written.
\<close>

theorem missing_pattern_fails_before_network:
  assumes "files w (resolve (cwd E) (version_path E)) = Some text"
    and "\<not> (\<exists>pre v post. occurrence text pre v post)"
  shows "main E w = (Some IndexError, w) \<and> failure_kind IndexError = FormatError \<and>
         requests (trace (snd (main E w))) = requests (trace w)"
proof -
  from assms have "findall text = []"
    by (simp add: findall_empty_iff)
  with assms(1) have "get_xcframework_version E w = Inl IndexError"
    by (simp add: get_xcframework_version_def)
  then show ?thesis
    by (simp add: main_def)
qed

theorem missing_pattern_fails_before_network_witness:
  "files (version_file text_unquoted) (resolve (cwd example_env) (version_path example_env)) =
     Some text_unquoted \<and>
   \<not> (\<exists>pre v post. occurrence text_unquoted pre v post) \<and>
   main example_env (version_file text_unquoted) = (Some IndexError, version_file text_unquoted) \<and>
   requests (trace (snd (main example_env (version_file text_unquoted)))) = []"
proof -
  have f: "files (version_file text_unquoted)
      (resolve (cwd example_env) (version_path example_env)) = Some text_unquoted"
    by code_simp
  have "findall text_unquoted = []"
    by code_simp
  then have n: "\<not> (\<exists>pre v post. occurrence text_unquoted pre v post)"
    by (simp add: findall_empty_iff)
  have t: "requests (trace (version_file text_unquoted)) = []"
    by (simp add: version_file_def)
  from missing_pattern_fails_before_network [OF f n] f n t show ?thesis
    by simp
qed

text \<open>
  C5.  When the version file Sources/OdinKit.swift under the script's directory is absent,
  the run ends with FileNotFoundError, the exception that stands for the specification's
  NotFound, and leaves the world as it was: no URL is requested and no file is written.
\<close>

theorem missing_file_fails_before_network:
  assumes "files w (resolve (cwd E) (version_path E)) = None"
  shows "main E w = (Some FileNotFoundError, w) \<and> failure_kind FileNotFoundError = NotFound \<and>
         requests (trace (snd (main E w))) = requests (trace w) \<and>
         files (snd (main E w)) = files w"
  using assms by (simp add: main_def get_xcframework_version_def)

theorem missing_file_fails_before_network_witness:
  "files \<lparr>files = Map.empty, temps = Map.empty, trace = []\<rparr>
     (resolve (cwd example_env) (version_path example_env)) = None \<and>
   main example_env \<lparr>files = Map.empty, temps = Map.empty, trace = []\<rparr> =
     (Some FileNotFoundError, \<lparr>files = Map.empty, temps = Map.empty, trace = []\<rparr>)"
proof -
  have f: "files \<lparr>files = Map.empty, temps = Map.empty, trace = []\<rparr>
      (resolve (cwd example_env) (version_path example_env)) = None"
    by simp
  from missing_file_fails_before_network [OF f] f show ?thesis
    by simp
qed

text \<open>
  C10.  The token is spliced into the URL as it stands: when the first occurrence of the
  pattern in the version file has the value v (any non-empty text free of double quotes),
  the URL the run requests is the base, /releases/download/v, the very text v, and
  /odin-xcframework.tgz.
\<close>

theorem version_spliced_verbatim:
  assumes "files w (resolve (cwd E) (version_path E)) = Some (pre @ marker @ v @ [dquote] @ post)"
    and "v \<noteq> []" and "dquote \<notin> set v"
    and "\<forall>p u q. occurrence (pre @ marker @ v @ [dquote] @ post) p u q \<longrightarrow> length pre \<le> length p"
  shows "requests (trace (snd (main E w))) =
           requests (trace w) @ [coresdk_url @ ''/releases/download/v'' @ v @ ''/odin-xcframework.tgz'']"
proof -
  have "occurrence (pre @ marker @ v @ [dquote] @ post) pre v post"
    using assms(2,3) by (simp add: occurrence_def)
  with assms(4) have "first_occurrence (pre @ marker @ v @ [dquote] @ post) v"
    unfolding first_occurrence_def by blast
  then obtain vs where "findall (pre @ marker @ v @ [dquote] @ post) = v # vs"
    using findall_first_iff by blast
  with assms(1) have "get_xcframework_version E w = Inr v"
    by (simp add: get_xcframework_version_def)
  then have "requests (trace (snd (main E w))) = requests (trace w) @ [xcframework_url v]"
    by (rule main_requests)
  then show ?thesis
    by (simp add: xcframework_url_def)
qed

theorem version_spliced_verbatim_witness:
  "files (version_file text_odd_token) (resolve (cwd example_env) (version_path example_env)) =
     Some ([] @ marker @ ''../a b/c'' @ [dquote] @ []) \<and>
   ''../a b/c'' \<noteq> [] \<and> dquote \<notin> set ''../a b/c'' \<and>
   requests (trace (snd (main example_env (version_file text_odd_token)))) =
     [''https://github.com/4Players/odin-sdk/releases/download/v../a b/c/odin-xcframework.tgz'']"
proof -
  have f: "files (version_file text_odd_token)
      (resolve (cwd example_env) (version_path example_env)) =
      Some ([] @ marker @ ''../a b/c'' @ [dquote] @ [])"
    by code_simp
  have n: "''../a b/c'' \<noteq> []"
    by simp
  have q: "dquote \<notin> set ''../a b/c''"
    by (simp add: dquote_def)
  have m: "\<forall>p u q. occurrence ([] @ marker @ ''../a b/c'' @ [dquote] @ []) p u q \<longrightarrow> length [] \<le> length p"
    by simp
  have t: "requests (trace (version_file text_odd_token)) = []"
    by (simp add: version_file_def)
  from version_spliced_verbatim [OF f n q m] f n q t show ?thesis
    by (simp add: coresdk_url_def)
qed

section \<open>The example run\<close>

lemma example_run_succeeds: "fst (main example_env (version_file text_1_2_3)) = None"
  by code_simp

lemma example_run_trace:
  "trace (snd (main example_env (version_file text_1_2_3))) =
     [Printed ''Downloading Odin.xcframework version 1.2.3'',
      Requested ''https://github.com/4Players/odin-sdk/releases/download/v1.2.3/odin-xcframework.tgz'',
      Copied, Opened,
      Wrote [''repo'', ''Frameworks'', ''Odin.xcframework'', ''Info.plist''],
      Closed, Printed ''All done :-)'']"
  by code_simp

lemma broken_download_run:
  "fst (main (example_env\<lparr>urlopen := (\<lambda>u. Some (Broken ''tg''))\<rparr>) (version_file text_1_2_3)) =
     Some IncompleteRead \<and>
   trace (snd (main (example_env\<lparr>urlopen := (\<lambda>u. Some (Broken ''tg''))\<rparr>) (version_file text_1_2_3))) =
     [Printed ''Downloading Odin.xcframework version 1.2.3'',
      Requested ''https://github.com/4Players/odin-sdk/releases/download/v1.2.3/odin-xcframework.tgz''] \<and>
   temps (snd (main (example_env\<lparr>urlopen := (\<lambda>u. Some (Broken ''tg''))\<rparr>) (version_file text_1_2_3)))
     ''tmp1'' = None"
  by code_simp

section \<open>The temporary file\<close>

lemma extract_one_temps: "temps (snd (extract_one E d m w)) = temps w"
  by (simp add: extract_one_def Let_def temps_emit split: sum.splits)

lemma extractall_temps: "temps (snd (extractall E d ms w)) = temps w"
proof (induction ms arbitrary: w)
  case Nil
  then show ?case by simp
next
  case (Cons m ms)
  show ?case
  proof (cases "extract_one E d m w")
    case (Pair r w')
    with Cons extract_one_temps [of E d m w] show ?thesis
      by (cases r) auto
  qed
qed

lemma unpack_temps:
  "temps (snd (unpack E rsp tmp w)) = (temps w)(tmp := temps (snd (unpack E rsp tmp w)) tmp)"
proof (cases rsp)
  case (Broken part)
  then show ?thesis
    by (auto simp: unpack_def copyfileobj_def)
next
  case (Complete body)
  let ?w1 = "emit Copied (w\<lparr>temps := (temps w)(tmp \<mapsto> body)\<rparr>)"
  have c: "copyfileobj rsp tmp w = (None, ?w1)"
    using Complete by (simp add: copyfileobj_def)
  show ?thesis
  proof (cases "tarfile_open E tmp ?w1")
    case (Inl e)
    with c show ?thesis
      by (auto simp: unpack_def temps_emit)
  next
    case (Inr ms)
    obtain r2 w2 where x: "extractall E (frameworks_path E) ms (emit Opened ?w1) = (r2, w2)"
      by (cases "extractall E (frameworks_path E) ms (emit Opened ?w1)")
    then have "temps w2 = (temps w)(tmp \<mapsto> body)"
      using extractall_temps [of E "frameworks_path E" ms "emit Opened ?w1"]
      by (simp add: temps_emit)
    with c Inr x show ?thesis
      by (cases r2) (auto simp: unpack_def temps_emit)
  qed
qed

lemma with_tmp_temps:
  "temps (snd (with_tmp E (unpack E rsp) w)) = (temps w)(tmpname E := None)"
proof -
  let ?w0 = "w\<lparr>temps := (temps w)(tmpname E \<mapsto> [])\<rparr>"
  obtain r w' where x: "unpack E rsp (tmpname E) ?w0 = (r, w')"
    by (cases "unpack E rsp (tmpname E) ?w0")
  have "temps w' = (temps ?w0)(tmpname E := temps w' (tmpname E))"
    using unpack_temps [of E rsp "tmpname E" ?w0] x by simp
  then have "(temps w')(tmpname E := None) = (temps w)(tmpname E := None)"
    by (metis fun_upd_upd select_convs(2) surjective update_convs(2))
  with x show ?thesis
    by (simp add: with_tmp_def)
qed

text \<open>
  C6.  Whatever way the run ends, the temporary file it created is gone: either the with
  block was never entered and the temporary directory is as it was, or it was entered and
  the directory is as it was with nothing under the name of the run's temporary file.
\<close>

theorem temporary_file_deleted:
  "temps (snd (main E w)) = temps w \<or> temps (snd (main E w)) = (temps w)(tmpname E := None)"
proof (cases "get_xcframework_version E w")
  case (Inl e)
  then show ?thesis by (simp add: main_def)
next
  case (Inr v)
  show ?thesis
  proof (cases "urlopen E (xcframework_url v)")
    case None
    with Inr show ?thesis
      by (simp add: main_def Let_def temps_emit)
  next
    case (Some rsp)
    let ?w2 = "emit (Requested (xcframework_url v)) (emit (Printed (start_message v)) w)"
    obtain r w3 where x: "with_tmp E (unpack E rsp) ?w2 = (r, w3)"
      by (cases "with_tmp E (unpack E rsp) ?w2")
    then have "temps w3 = (temps w)(tmpname E := None)"
      using with_tmp_temps [of E rsp ?w2] by (simp add: temps_emit)
    with Inr Some x show ?thesis
      by (cases r) (simp_all add: main_def Let_def temps_emit)
  qed
qed

theorem temporary_file_deleted_witness:
  "fst (main corrupt_env (version_file text_1_2_3)) = Some ReadError \<and>
   temps (snd (main corrupt_env (version_file text_1_2_3))) (tmpname corrupt_env) = None"
proof -
  have r: "fst (main corrupt_env (version_file text_1_2_3)) = Some ReadError"
    by code_simp
  have t: "temps (version_file text_1_2_3) = Map.empty"
    by (simp add: version_file_def)
  from temporary_file_deleted [of corrupt_env "version_file text_1_2_3"] r t show ?thesis
    by auto
qed

section \<open>The order of the run\<close>

lemma accept_append:
  "accept q (a @ b) = (case accept q a of None \<Rightarrow> None | Some q' \<Rightarrow> accept q' b)"
  by (induction a arbitrary: q) (auto split: option.splits)

lemma accept_Wrote: "accept Downloaded (map Wrote ls) = Some Downloaded"
  by (induction ls) auto

lemma extract_one_shape:
  "extract_one E d m w = (r, w') \<Longrightarrow>
     (r = None \<and> (\<exists>l. trace w' = trace w @ [Wrote l])) \<or>
     ((r = Some OutsideDestinationError \<or> r = Some OSError) \<and> w' = w)"
  by (auto simp: extract_one_def filter_member_def Let_def trace_emit
      split: sum.splits extraction_filter.splits if_splits)

lemma extractall_shape:
  "extractall E d ms w = (r, w') \<Longrightarrow>
     (\<exists>ls. trace w' = trace w @ map Wrote ls) \<and>
     (r = None \<or> r = Some OutsideDestinationError \<or> r = Some OSError)"
proof (induction ms arbitrary: w)
  case Nil
  then show ?case by simp
next
  case (Cons m ms)
  obtain r1 w1 where x: "extract_one E d m w = (r1, w1)"
    by (cases "extract_one E d m w")
  from extract_one_shape [OF x] show ?case
  proof
    assume a: "r1 = None \<and> (\<exists>l. trace w1 = trace w @ [Wrote l])"
    then obtain l where l: "trace w1 = trace w @ [Wrote l]"
      by blast
    from a x Cons.prems have "extractall E d ms w1 = (r, w')"
      by simp
    from Cons.IH [OF this] obtain ls where
      "trace w' = trace w1 @ map Wrote ls" and
      r: "r = None \<or> r = Some OutsideDestinationError \<or> r = Some OSError"
      by blast
    with l have "trace w' = trace w @ map Wrote (l # ls)"
      by simp
    with r show ?thesis
      by blast
  next
    assume a: "(r1 = Some OutsideDestinationError \<or> r1 = Some OSError) \<and> w1 = w"
    with x Cons.prems have "r = r1" and "w' = w"
      by auto
    with a have "trace w' = trace w @ map Wrote []"
      by simp
    with a \<open>r = r1\<close> show ?thesis
      by blast
  qed
qed

lemma unpack_shape:
  assumes "unpack E rsp tmp w = (r, w')"
  shows "\<exists>es. trace w' = trace w @ es \<and> accept VersionResolved es = Some
           (case r of None \<Rightarrow> Extracted | Some e \<Rightarrow> halted_in e) \<and> requests es = [] \<and>
           r \<noteq> Some FileNotFoundError \<and> r \<noteq> Some IndexError"
proof (cases rsp)
  case (Broken part)
  with assms have "r = Some IncompleteRead" and "trace w' = trace w"
    by (auto simp: unpack_def copyfileobj_def)
  then show ?thesis
    by simp
next
  case (Complete body)
  let ?w1 = "emit Copied (w\<lparr>temps := (temps w)(tmp \<mapsto> body)\<rparr>)"
  have c: "copyfileobj rsp tmp w = (None, ?w1)"
    using Complete by (simp add: copyfileobj_def)
  have t1: "trace ?w1 = trace w @ [Copied]"
    by (simp add: trace_emit)
  show ?thesis
  proof (cases "untar E (readback E body)")
    case None
    then have "tarfile_open E tmp ?w1 = Inl ReadError"
      by (simp add: tarfile_open_def temps_emit)
    with assms c have "r = Some ReadError" and "w' = ?w1"
      by (auto simp: unpack_def)
    with t1 show ?thesis
      by simp
  next
    case (Some ms)
    then have o: "tarfile_open E tmp ?w1 = Inr ms"
      by (simp add: tarfile_open_def temps_emit)
    obtain r2 w2 where x: "extractall E (frameworks_path E) ms (emit Opened ?w1) = (r2, w2)"
      by (cases "extractall E (frameworks_path E) ms (emit Opened ?w1)")
    from extractall_shape [OF x] obtain ls where
      t2: "trace w2 = trace w @ [Copied, Opened] @ map Wrote ls" and
      r2: "r2 = None \<or> r2 = Some OutsideDestinationError \<or> r2 = Some OSError"
      by (auto simp: trace_emit)
    have rq: "requests ([Copied, Opened] @ map Wrote ls) = []"
      by (induction ls) auto
    have rq': "requests ([Copied, Opened] @ map Wrote ls @ [Closed]) = []"
      by (induction ls) auto
    have a: "accept VersionResolved ([Copied, Opened] @ map Wrote ls) = Some Downloaded"
      using accept_Wrote by simp
    have a': "accept VersionResolved ([Copied, Opened] @ map Wrote ls @ [Closed]) = Some Extracted"
      using accept_append [of Downloaded "map Wrote ls" "[Closed]"] accept_Wrote by simp
    show ?thesis
    proof (cases r2)
      case None
      with assms c o x have "r = None" and "w' = emit Closed w2"
        by (auto simp: unpack_def)
      then have "trace w' = trace w @ ([Copied, Opened] @ map Wrote ls @ [Closed])"
        using t2 by (simp add: trace_emit)
      with \<open>r = None\<close> a' rq' show ?thesis
        by (intro exI [of _ "[Copied, Opened] @ map Wrote ls @ [Closed]"]) simp
    next
      case (Some e)
      with assms c o x have "r = Some e" and "w' = w2"
        by (auto simp: unpack_def)
      moreover from Some r2 have "halted_in e = Downloaded" and "e \<noteq> FileNotFoundError" and "e \<noteq> IndexError"
        by auto
      ultimately show ?thesis
        using t2 a rq by (intro exI [of _ "[Copied, Opened] @ map Wrote ls"]) simp
    qed
  qed
qed

lemma with_tmp_shape:
  assumes "with_tmp E (unpack E rsp) w = (r, w')"
  shows "\<exists>es. trace w' = trace w @ es \<and> accept VersionResolved es = Some
           (case r of None \<Rightarrow> Extracted | Some e \<Rightarrow> halted_in e) \<and> requests es = [] \<and>
           r \<noteq> Some FileNotFoundError \<and> r \<noteq> Some IndexError"
proof -
  let ?w0 = "w\<lparr>temps := (temps w)(tmpname E \<mapsto> [])\<rparr>"
  obtain r0 w0 where x: "unpack E rsp (tmpname E) ?w0 = (r0, w0)"
    by (cases "unpack E rsp (tmpname E) ?w0")
  with assms have "r = r0" and "trace w' = trace w0"
    by (auto simp: with_tmp_def)
  with unpack_shape [OF x] show ?thesis
    by simp
qed

lemma get_xcframework_version_errors:
  "get_xcframework_version E w = Inl e \<Longrightarrow> e = FileNotFoundError \<or> e = IndexError"
  by (auto simp: get_xcframework_version_def split: option.splits list.splits)

text \<open>
  C8.  The events of every run are accepted by the state machine, from Idle, and lead to
  Done exactly when the run succeeds and otherwise to the state in which the exception was
  raised: nothing happens after a failure.  The request comes after the version is
  resolved, the archive is opened and written only after the copy has finished, and the
  completion line comes only after the archive is closed.  No run asks the network twice.
\<close>

theorem run_is_linear:
  "trace (snd (main E w)) = trace w @ new_events E w \<and>
   accept Idle (new_events E w) = Some (final_state (fst (main E w))) \<and>
   length (requests (new_events E w)) \<le> 1"
proof (cases "get_xcframework_version E w")
  case (Inl e)
  then have "main E w = (Some e, w)"
    by (simp add: main_def)
  moreover from Inl have "halted_in e = Idle"
    by (auto dest: get_xcframework_version_errors)
  ultimately show ?thesis
    by (simp add: new_events_def final_state_def)
next
  case (Inr v)
  let ?p = "[Printed (start_message v), Requested (xcframework_url v)]"
  let ?w2 = "emit (Requested (xcframework_url v)) (emit (Printed (start_message v)) w)"
  have t2: "trace ?w2 = trace w @ ?p"
    by (simp add: trace_emit)
  show ?thesis
  proof (cases "urlopen E (xcframework_url v)")
    case None
    with Inr have "main E w = (Some URLError, ?w2)"
      by (simp add: main_def Let_def)
    with t2 show ?thesis
      by (simp add: new_events_def final_state_def)
  next
    case (Some rsp)
    obtain r w3 where x: "with_tmp E (unpack E rsp) ?w2 = (r, w3)"
      by (cases "with_tmp E (unpack E rsp) ?w2")
    from with_tmp_shape [OF x] obtain es where
      t3: "trace w3 = trace w @ ?p @ es" and
      a: "accept VersionResolved es = Some (case r of None \<Rightarrow> Extracted | Some e \<Rightarrow> halted_in e)" and
      q: "requests es = []"
      using t2 by auto
    show ?thesis
    proof (cases r)
      case None
      with Inr Some x have m: "main E w = (None, emit (Printed done_message) w3)"
        by (simp add: main_def Let_def)
      then have n: "new_events E w = ?p @ es @ [Printed done_message]"
        using t3 by (simp add: new_events_def trace_emit)
      have "accept Idle (?p @ es @ [Printed done_message]) = Some Done"
        using a None accept_append [of VersionResolved es "[Printed done_message]"] by simp
      moreover have "requests (?p @ es @ [Printed done_message]) = [xcframework_url v]"
        using q by (simp add: requests_append)
      ultimately show ?thesis
        using m n t3 by (simp add: final_state_def trace_emit)
    next
      case (Some e)
      with Inr \<open>urlopen E (xcframework_url v) = Some rsp\<close> x have m: "main E w = (Some e, w3)"
        by (simp add: main_def Let_def)
      then have n: "new_events E w = ?p @ es"
        using t3 by (simp add: new_events_def)
      have "accept Idle (?p @ es) = Some (halted_in e)"
        using a Some by simp
      moreover have "requests (?p @ es) = [xcframework_url v]"
        using q by simp
      ultimately show ?thesis
        using m n t3 by (simp add: final_state_def)
    qed
  qed
qed

theorem run_is_linear_witness:
  "fst (main example_env (version_file text_1_2_3)) = None \<and>
   accept Idle (new_events example_env (version_file text_1_2_3)) = Some Done \<and>
   fst (main corrupt_env (version_file text_1_2_3)) = Some ReadError \<and>
   accept Idle (new_events corrupt_env (version_file text_1_2_3)) = Some Downloaded"
proof -
  have r: "fst (main example_env (version_file text_1_2_3)) = None"
    by code_simp
  have c: "fst (main corrupt_env (version_file text_1_2_3)) = Some ReadError"
    by code_simp
  from run_is_linear [of example_env "version_file text_1_2_3"]
    run_is_linear [of corrupt_env "version_file text_1_2_3"] r c
  show ?thesis
    by (simp add: final_state_def)
qed

section \<open>Paths under the output directory\<close>








lemma placed_data: "default_filter E = data \<Longrightarrow> placed E m = Some (l, c) \<Longrightarrow> inside E l"
  by (auto simp: placed_def filter_member_def inside_def Let_def split: if_splits)

section \<open>What the extraction writes\<close>

lemma extract_one_files:
  "extract_one E (frameworks_path E) m w = (r, w') \<Longrightarrow>
     (r \<noteq> None \<and> files w' = files w) \<or> (r = None \<and> placed E m \<noteq> None \<and> files w' = put E m (files w))"
  by (auto simp: extract_one_def placed_def put_def Let_def files_emit split: sum.splits if_splits)

lemma put_outside:
  "(\<And>l c. placed E m = Some (l, c) \<Longrightarrow> inside E l) \<Longrightarrow> \<not> inside E k \<Longrightarrow> put E m f k = f k"
  by (auto simp: put_def split: option.splits)

lemma extractall_outside:
  assumes "\<And>m l c. m \<in> set ms \<Longrightarrow> placed E m = Some (l, c) \<Longrightarrow> inside E l"
    and "\<not> inside E k"
  shows "files (snd (extractall E (frameworks_path E) ms w)) k = files w k"
  using assms(1)
proof (induction ms arbitrary: w)
  case Nil
  then show ?case by simp
next
  case (Cons m ms)
  obtain r1 w1 where x: "extract_one E (frameworks_path E) m w = (r1, w1)"
    by (cases "extract_one E (frameworks_path E) m w")
  have p: "put E m (files w) k = files w k"
    using Cons.prems assms(2) by (intro put_outside) auto
  from extract_one_files [OF x] p have k: "files w1 k = files w k"
    by auto
  show ?case
  proof (cases r1)
    case None
    have "files (snd (extractall E (frameworks_path E) ms w1)) k = files w1 k"
      using Cons.prems by (intro Cons.IH) auto
    with x None k show ?thesis
      by simp
  next
    case (Some e)
    with x k show ?thesis
      by simp
  qed
qed




lemma unpack_outside:
  assumes "\<And>body ms m l c. rsp = Complete body \<Longrightarrow> untar E (readback E body) = Some ms \<Longrightarrow> m \<in> set ms \<Longrightarrow>
             placed E m = Some (l, c) \<Longrightarrow> inside E l"
    and "\<not> inside E k"
  shows "files (snd (unpack E rsp tmp w)) k = files w k"
proof (cases rsp)
  case (Broken part)
  then show ?thesis
    by (simp add: unpack_def copyfileobj_def)
next
  case (Complete body)
  let ?w1 = "emit Copied (w\<lparr>temps := (temps w)(tmp \<mapsto> body)\<rparr>)"
  have c: "copyfileobj rsp tmp w = (None, ?w1)"
    using Complete by (simp add: copyfileobj_def)
  show ?thesis
  proof (cases "untar E (readback E body)")
    case None
    then have "tarfile_open E tmp ?w1 = Inl ReadError"
      by (simp add: tarfile_open_def temps_emit)
    with c show ?thesis
      by (simp add: unpack_def files_emit)
  next
    case (Some ms)
    then have o: "tarfile_open E tmp ?w1 = Inr ms"
      by (simp add: tarfile_open_def temps_emit)
    obtain r2 w2 where x: "extractall E (frameworks_path E) ms (emit Opened ?w1) = (r2, w2)"
      by (cases "extractall E (frameworks_path E) ms (emit Opened ?w1)")
    have "files (snd (extractall E (frameworks_path E) ms (emit Opened ?w1))) k =
        files (emit Opened ?w1) k"
      using assms(1) [OF Complete Some] assms(2) by (intro extractall_outside) auto
    with x have "files w2 k = files w k"
      by (simp add: files_emit)
    with c o x show ?thesis
      by (cases r2) (simp_all add: unpack_def files_emit)
  qed
qed



lemma with_tmp_unpack:
  "\<exists>w'. unpack E rsp (tmpname E) (w\<lparr>temps := (temps w)(tmpname E \<mapsto> [])\<rparr>) =
          (fst (with_tmp E (unpack E rsp) w), w') \<and>
        files (snd (with_tmp E (unpack E rsp) w)) = files w'"
  by (cases "unpack E rsp (tmpname E) (w\<lparr>temps := (temps w)(tmpname E \<mapsto> [])\<rparr>)")
    (simp add: with_tmp_def)

lemma main_outside:
  assumes "\<And>v body ms m l c. get_xcframework_version E w = Inr v \<Longrightarrow>
             urlopen E (xcframework_url v) = Some (Complete body) \<Longrightarrow> untar E (readback E body) = Some ms \<Longrightarrow>
             m \<in> set ms \<Longrightarrow> placed E m = Some (l, c) \<Longrightarrow> inside E l"
    and "\<not> inside E k"
  shows "files (snd (main E w)) k = files w k"
proof (cases "get_xcframework_version E w")
  case (Inl e)
  then show ?thesis by (simp add: main_def)
next
  case (Inr v)
  show ?thesis
  proof (cases "urlopen E (xcframework_url v)")
    case None
    with Inr show ?thesis
      by (simp add: main_def Let_def files_emit)
  next
    case (Some rsp)
    let ?w2 = "emit (Requested (xcframework_url v)) (emit (Printed (start_message v)) w)"
    let ?w0 = "?w2\<lparr>temps := (temps ?w2)(tmpname E \<mapsto> [])\<rparr>"
    from with_tmp_unpack [of E rsp ?w2] obtain w' where
      u: "unpack E rsp (tmpname E) ?w0 = (fst (with_tmp E (unpack E rsp) ?w2), w')" and
      f: "files (snd (with_tmp E (unpack E rsp) ?w2)) = files w'"
      by blast
    have "files (snd (unpack E rsp (tmpname E) ?w0)) k = files ?w0 k"
      using assms(1) [OF Inr] Some assms(2) by (intro unpack_outside) auto
    with u f have "files (snd (with_tmp E (unpack E rsp) ?w2)) k = files w k"
      by (simp add: files_emit)
    with Inr Some show ?thesis
      by (cases "with_tmp E (unpack E rsp) ?w2"; cases "fst (with_tmp E (unpack E rsp) ?w2)")
        (simp_all add: main_def Let_def files_emit)
  qed
qed






text \<open>
  With the data filter as the default, nothing outside the output directory changes,
  whatever the names in the archive.
\<close>

lemma data_filter_stays_inside:
  assumes "default_filter E = data" and "\<not> inside E l"
  shows "files (snd (main E w)) l = files w l"
  using assms by (intro main_outside) (auto dest: placed_data)

section \<open>The claims about the extraction\<close>






end
